theory Spec2Isabelle
  imports Main "HOL-Library.Word"
begin

unbundle bit_operations_syntax

section \<open>Controller state\<close>

text \<open>
  The eight bytes sent to the console, in wire order (\<open>GCStatus\<close> of
  \<open>gamecube_control.ino\<close>). Every field is an \<open>unsigned char\<close>.
  \<open>data1\<close> holds the bits 0, 0, 0, start, y, x, b, a (most significant first);
  \<open>data2\<close> holds 1, L, R, Z, Dup, Ddown, Dright, Dleft.
\<close>

record GCStatus =
  data1 :: "8 word"
  data2 :: "8 word"
  stick_x :: "8 word"
  stick_y :: "8 word"
  cstick_x :: "8 word"
  cstick_y :: "8 word"
  left :: "8 word"
  right :: "8 word"

definition initial_gc_status :: GCStatus where
  "initial_gc_status =
     \<lparr>data1 = 0, data2 = 0, stick_x = 128, stick_y = 128,
      cstick_x = 128, cstick_y = 128, left = 0, right = 0\<rparr>"

definition identify_response :: "8 word list" where
  "identify_response = [0x09, 0x00, 0x20]"

definition origin_response :: "8 word list" where
  "origin_response = [0x00, 0x80, 0x7d, 0x87, 0x82, 0x85, 0x1f, 0x22, 0x00, 0x00]"

section \<open>Move queue\<close>

text \<open>
  \<open>MoveQueue\<close> is an array of \<open>MOVE_QUEUE_MAX\<close> slots (a status and an
  \<open>unsigned int\<close> count, 16 bits on the AVR, which wraps around), the number \<open>n\<close>
  of slots in use and the cursor \<open>pos\<close>, both \<open>int\<close>. The two are only ever set to
  0 or incremented under a guard that keeps them at most 10, so they are integers here.
  The array is a list, of length 10 in every state of the program; an access to a slot
  outside \<open>0..MOVE_QUEUE_MAX - 1\<close> is undefined in C and is the error
  \<open>OutOfBounds\<close> here.
\<close>

definition MOVE_QUEUE_MAX :: int where
  "MOVE_QUEUE_MAX = 10"

record entry =
  status :: GCStatus
  count :: "16 word"

record MoveQueue =
  queue :: "entry list"
  n :: int
  pos :: int

datatype error = OutOfBounds

definition slot_ok :: "MoveQueue \<Rightarrow> int \<Rightarrow> bool" where
  "slot_ok mq i = (0 \<le> i \<and> i < MOVE_QUEUE_MAX \<and> nat i < length (queue mq))"

definition MoveQueue_clear :: "MoveQueue \<Rightarrow> error + MoveQueue" where
  "MoveQueue_clear mq =
     (let mq1 = mq\<lparr>n := 0, pos := 0\<rparr>
      in if slot_ok mq1 0
         then Inr (mq1\<lparr>queue := (queue mq1)[0 := (queue mq1 ! 0)\<lparr>status := initial_gc_status\<rparr>]\<rparr>)
         else Inl OutOfBounds)"

definition MoveQueue_add_move :: "MoveQueue \<Rightarrow> GCStatus \<Rightarrow> 16 word \<Rightarrow> error + MoveQueue" where
  "MoveQueue_add_move mq st c =
     (if n mq \<ge> MOVE_QUEUE_MAX then Inr mq
      else if slot_ok mq (n mq)
      then Inr (mq\<lparr>queue := (queue mq)[nat (n mq) := \<lparr>status = st, count = c\<rparr>],
                   n := n mq + 1\<rparr>)
      else Inl OutOfBounds)"

definition MoveQueue_get_status :: "MoveQueue \<Rightarrow> error + GCStatus" where
  "MoveQueue_get_status mq =
     (if pos mq < 0 \<or> pos mq \<ge> n mq then Inr initial_gc_status
      else if slot_ok mq (pos mq) then Inr (status (queue mq ! nat (pos mq)))
      else Inl OutOfBounds)"

definition MoveQueue_next :: "MoveQueue \<Rightarrow> error + GCStatus \<times> MoveQueue" where
  "MoveQueue_next mq =
     (case (if pos mq \<ge> n mq then MoveQueue_clear mq
            else if slot_ok mq (pos mq)
            then (let e = queue mq ! nat (pos mq);
                      e1 = e\<lparr>count := count e - 1\<rparr>;
                      mq1 = mq\<lparr>queue := (queue mq)[nat (pos mq) := e1]\<rparr>
                  in if count e1 = 0 then Inr (mq1\<lparr>pos := pos mq1 + 1\<rparr>) else Inr mq1)
            else Inl OutOfBounds) of
        Inl err \<Rightarrow> Inl err
      | Inr mq2 \<Rightarrow>
          (case MoveQueue_get_status mq2 of
             Inl err \<Rightarrow> Inl err
           | Inr st \<Rightarrow> Inr (st, mq2)))"

section \<open>Decoding a move code\<close>

text \<open>
  The byte read from the host link is promoted to \<open>int\<close> before the masks and
  shifts of \<open>loop\<close> apply.
\<close>

definition decode_delta_x :: "8 word \<Rightarrow> int" where
  "decode_delta_x b = drop_bit 3 (uint b AND 0x38) - 2"

definition decode_rot :: "8 word \<Rightarrow> int" where
  "decode_rot b = drop_bit 1 (uint b AND 0x06)"

definition decode_down_fast :: "8 word \<Rightarrow> bool" where
  "decode_down_fast b = (uint b AND 0x01 \<noteq> 0)"

section \<open>Building the queue from a move code\<close>

text \<open>
  The branch of \<open>loop\<close> taken when the host link has a byte. The body of its loop
  first sets the stick from \<open>delta_x\<close> (\<open>move_stick\<close>), then a button from
  \<open>rot\<close> (\<open>move_rotate\<close>, the \<open>switch\<close>); each gives the new status
  and the new counter.
\<close>

definition move_stick :: "GCStatus \<Rightarrow> int \<Rightarrow> GCStatus \<times> int" where
  "move_stick tmp_status delta_x =
     (if delta_x > 0 then (tmp_status\<lparr>stick_x := 255\<rparr>, delta_x - 1)
      else if delta_x < 0 then (tmp_status\<lparr>stick_x := 0\<rparr>, delta_x + 1)
      else (tmp_status, delta_x))"

definition move_rotate :: "GCStatus \<Rightarrow> int \<Rightarrow> GCStatus \<times> int" where
  "move_rotate tmp_status rot =
     (if rot = 1 \<or> rot = 2 then (tmp_status\<lparr>data1 := data1 tmp_status OR 0x04\<rparr>, rot - 1)
      else if rot = 3 then (tmp_status\<lparr>data1 := data1 tmp_status OR 0x01\<rparr>, 0)
      else (tmp_status, rot))"

text \<open>
  The \<open>do ... while (delta_x != 0 || rot != 0)\<close> loop. It leaves \<open>rot\<close> alone
  when it is none of 1, 2, 3, so it does not end for such a value: the result is an
  option, \<open>None\<close> for a run that never leaves the loop.
\<close>

partial_function (option) move_loop ::
  "int \<Rightarrow> int \<Rightarrow> GCStatus \<Rightarrow> MoveQueue \<Rightarrow> (error + GCStatus \<times> MoveQueue) option" where
  "move_loop delta_x rot tmp_status mq =
     (let s1 = move_stick tmp_status delta_x;
          s2 = move_rotate (fst s1) rot;
          delta_x1 = snd s1;
          rot1 = snd s2
      in case MoveQueue_add_move mq (fst s2) 1 of
           Inl err \<Rightarrow> Some (Inl err)
         | Inr mq1 \<Rightarrow>
             (case (if delta_x1 \<noteq> 0 \<or> rot1 \<noteq> 0
                    then MoveQueue_add_move mq1 initial_gc_status 1 else Inr mq1) of
                Inl err \<Rightarrow> Some (Inl err)
              | Inr mq2 \<Rightarrow>
                  if delta_x1 \<noteq> 0 \<or> rot1 \<noteq> 0
                  then move_loop delta_x1 rot1 initial_gc_status mq2
                  else Some (Inr (initial_gc_status, mq2))))"

declare move_loop.simps [code]

text \<open>
  The whole construction, from \<open>MoveQueue_clear\<close> to the closing
  \<open>MoveQueue_add_move\<close> of the neutral state; \<open>move_code_queue\<close> runs it on
  the fields of the byte, and \<open>entries\<close> are the slots in use.
\<close>

definition build_queue :: "int \<Rightarrow> int \<Rightarrow> bool \<Rightarrow> MoveQueue \<Rightarrow> (error + MoveQueue) option" where
  "build_queue delta_x rot down_fast mq =
     (case MoveQueue_clear mq of
        Inl err \<Rightarrow> Some (Inl err)
      | Inr mq0 \<Rightarrow>
          (case move_loop delta_x rot initial_gc_status mq0 of
             None \<Rightarrow> None
           | Some (Inl err) \<Rightarrow> Some (Inl err)
           | Some (Inr (tmp_status, mq1)) \<Rightarrow>
               (case (if down_fast
                      then MoveQueue_add_move mq1 (tmp_status\<lparr>stick_y := 0\<rparr>) 8
                      else Inr mq1) of
                  Inl err \<Rightarrow> Some (Inl err)
                | Inr mq2 \<Rightarrow> Some (MoveQueue_add_move mq2 initial_gc_status 1))))"

definition move_code_queue :: "8 word \<Rightarrow> MoveQueue \<Rightarrow> (error + MoveQueue) option" where
  "move_code_queue b mq = build_queue (decode_delta_x b) (decode_rot b) (decode_down_fast b) mq"

definition entries :: "MoveQueue \<Rightarrow> entry list" where
  "entries mq = take (nat (n mq)) (queue mq)"

section \<open>Receiving a command byte\<close>

text \<open>
  \<open>gc_get\<close> is AVR assembly that polls the data pin. The pin is the function
  \<open>line\<close>: \<open>line t\<close> is the level (\<open>True\<close> for high) seen by the
  \<open>t\<close>-th read of the pin since the call began; the instruction timing between
  two reads is not part of the model. Registers are 8-bit words.
\<close>

text \<open>
  The first spin loop, label \<open>_1\<close>, entered with the counter \<open>r24\<close>:
  \<open>sbis\<close>/\<open>rjmp _2\<close> leave it when the pin is low; otherwise
  \<open>subi r24,1\<close>, then \<open>brne _1\<close>, and when the counter is 0 the next
  instruction \<open>jmp _1\<close> goes back as well. The two instructions after that
  jump (\<open>ldi retval,0\<close> and \<open>rjmp exit\<close>) have no way in.
  The result is the index of the next pin read.
\<close>

partial_function (option) gc_wait_low :: "(nat \<Rightarrow> bool) \<Rightarrow> nat \<Rightarrow> 8 word \<Rightarrow> nat option" where
  "gc_wait_low line t r24 =
     (if \<not> line t then Some (Suc t)
      else let r24a = r24 - 1
           in if r24a \<noteq> 0 then gc_wait_low line (Suc t) r24a
              else gc_wait_low line (Suc t) r24a)"

declare gc_wait_low.simps [code]

text \<open>
  The second spin loop, label \<open>_4\<close>: \<open>sbic\<close>/\<open>rjmp read_loop\<close> leave it
  when the pin is high; otherwise \<open>subi r24,1\<close>, \<open>brne _4\<close>, and when the
  counter is 0 control falls through to \<open>ldi retval,0\<close>.
\<close>

datatype wait_result = LineHigh nat | TimedOut nat

function gc_wait_high :: "(nat \<Rightarrow> bool) \<Rightarrow> nat \<Rightarrow> 8 word \<Rightarrow> wait_result" where
  "gc_wait_high line t r24 =
     (if line t then LineHigh (Suc t)
      else if r24 - 1 \<noteq> 0 then gc_wait_high line (Suc t) (r24 - 1)
      else TimedOut (Suc t))"
  by pat_completeness auto
termination
proof (relation "measure (\<lambda>(line, t, r24). unat (r24 - 1))", goal_cases)
  case 1
  show ?case by simp
next
  case (2 line t r24)
  from \<open>r24 - 1 \<noteq> 0\<close> have "unat (r24 - 1) \<noteq> 0"
    by (simp add: unat_eq_0)
  moreover from \<open>r24 - 1 \<noteq> 0\<close> have "unat (r24 - 1 - 1) = unat (r24 - 1) - 1"
    by (rule unat_minus_one)
  ultimately show ?case by simp
qed

declare gc_wait_high.simps [simp del]

text \<open>
  The main read loop. \<open>r23\<close> collects the bits, \<open>r25\<close> counts them, \<open>z\<close> is
  the offset of the Z pointer from \<open>bitbin\<close> and \<open>mem\<close> the bytes from
  \<open>bitbin\<close> on. The result is \<open>retval\<close> with the memory written.
\<close>

partial_function (option) gc_read_loop ::
  "(nat \<Rightarrow> bool) \<Rightarrow> nat \<Rightarrow> 8 word \<Rightarrow> 8 word \<Rightarrow> nat \<Rightarrow> (nat \<Rightarrow> 8 word)
     \<Rightarrow> (int \<times> (nat \<Rightarrow> 8 word)) option" where
  "gc_read_loop line t r23 r25 z mem =
     (case gc_wait_low line t 64 of
        None \<Rightarrow> None
      | Some t1 \<Rightarrow>
          (let r23a = push_bit 1 r23;
               r23b = (if line t1 then r23a OR 1 else r23a);
               mem1 = mem(z := r23b);
               r25a = r25 + 1
           in if r25a = 8 then Some (1, mem1)
              else let z1 = (if r25a AND 7 \<noteq> 0 then z else Suc z);
                       r23c = (if r25a AND 7 \<noteq> 0 then r23b else mem1 (Suc z))
                   in case gc_wait_high line (Suc t1) 64 of
                        LineHigh t2 \<Rightarrow> gc_read_loop line t2 r23c r25a z1 mem1
                      | TimedOut t2 \<Rightarrow> Some (0, mem1)))"

declare gc_read_loop.simps [code]

text \<open>
  \<open>gc_get\<close> starts the read loop with \<open>r25 = 0\<close> and \<open>retval = 1\<close>;
  \<open>r23\<close> is whatever the register held.
\<close>

definition gc_get :: "(nat \<Rightarrow> bool) \<Rightarrow> 8 word \<Rightarrow> (nat \<Rightarrow> 8 word) \<Rightarrow> (int \<times> (nat \<Rightarrow> 8 word)) option" where
  "gc_get line r23 mem = gc_read_loop line 0 r23 0 0 mem"

section \<open>Answering a command\<close>

text \<open>
  \<open>gc_send\<close> puts bytes of the buffer on the wire, each byte most significant bit
  first (\<open>lsl\<close> and the carry flag), then a stop bit 1. A bit is \<open>True\<close> for 1. The
  byte counter \<open>length\<close> is an 8-bit register that is decremented after a byte is sent
  and tested for 0 then, so a length of 0 sends 256 bytes. Reading past the end of the
  buffer is the error \<open>OutOfBounds\<close>.
\<close>

definition byte_bits :: "8 word \<Rightarrow> bool list" where
  "byte_bits w = map (bit w) [7, 6, 5, 4, 3, 2, 1, 0]"

definition wire_frame :: "8 word list \<Rightarrow> bool list" where
  "wire_frame bytes = concat (map byte_bits bytes) @ [True]"

definition gc_send :: "8 word list \<Rightarrow> 8 word \<Rightarrow> error + bool list" where
  "gc_send buffer len =
     (let k = (if len = 0 then 256 else unat len)
      in if k \<le> length buffer then Inr (wire_frame (take k buffer)) else Inl OutOfBounds)"

definition gc_status_bytes :: "GCStatus \<Rightarrow> 8 word list" where
  "gc_status_bytes s =
     [data1 s, data2 s, stick_x s, stick_y s, cstick_x s, cstick_y s, left s, right s]"

text \<open>
  What one pass of \<open>loop\<close> does on the bus once \<open>gc_get\<close> has returned 1 with
  the byte \<open>from_gc\<close>: the delays, in microseconds, and the frames sent.
\<close>

datatype bus_event = Delay nat | Frame "bool list"

definition respond :: "8 word \<Rightarrow> GCStatus \<Rightarrow> error + bus_event list" where
  "respond from_gc gc_status =
     (if from_gc = 0x00
      then map_sum id (\<lambda>f. [Frame f])
             (gc_send identify_response (of_nat (length identify_response)))
      else if from_gc = 0x41
      then map_sum id (\<lambda>f. [Delay 4, Frame f])
             (gc_send origin_response (of_nat (length origin_response)))
      else if from_gc = 0x40
      then map_sum id (\<lambda>f. [Delay (4 * 17 + 28), Frame f])
             (gc_send (gc_status_bytes gc_status) (of_nat (length (gc_status_bytes gc_status))))
      else Inr [])"

text \<open>The queue of the zero-initialised global \<open>move_queue\<close>.\<close>

definition move_queue_init :: MoveQueue where
  "move_queue_init =
     \<lparr>queue = replicate 10
        \<lparr>status = \<lparr>data1 = 0, data2 = 0, stick_x = 0, stick_y = 0,
                    cstick_x = 0, cstick_y = 0, left = 0, right = 0\<rparr>, count = 0\<rparr>,
      n = 0, pos = 0\<rparr>"

section \<open>Observing a queue\<close>

text \<open>The entries a move code leaves in the queue, when the construction returns one.\<close>

definition built_entries :: "8 word \<Rightarrow> MoveQueue \<Rightarrow> entry list option" where
  "built_entries b mq =
     (case move_code_queue b mq of
        Some (Inr mq1) \<Rightarrow> Some (entries mq1)
      | _ \<Rightarrow> None)"

text \<open>\<open>MoveQueue_next\<close> called \<open>k\<close> times in a row, the statuses it returns dropped.\<close>

fun advance_times :: "nat \<Rightarrow> MoveQueue \<Rightarrow> error + MoveQueue" where
  "advance_times 0 mq = Inr mq"
| "advance_times (Suc k) mq =
     (case MoveQueue_next mq of
        Inl err \<Rightarrow> Inl err
      | Inr r \<Rightarrow> advance_times k (snd r))"

definition total_count :: "MoveQueue \<Rightarrow> nat" where
  "total_count mq = sum_list (map (\<lambda>e. unat (count e)) (entries mq))"

text \<open>
  The queue of a move code after as many calls of \<open>MoveQueue_next\<close> as the sum of
  its counts, and the pair \<open>(n, pos)\<close> of a queue so obtained.
\<close>

definition drained :: "8 word \<Rightarrow> MoveQueue \<Rightarrow> (error + MoveQueue) option" where
  "drained b mq =
     (case move_code_queue b mq of
        Some (Inr mq1) \<Rightarrow> Some (advance_times (total_count mq1) mq1)
      | r \<Rightarrow> r)"

definition cursor_state :: "(error + MoveQueue) option \<Rightarrow> (int \<times> int) option" where
  "cursor_state r = (case r of Some (Inr mq) \<Rightarrow> Some (n mq, pos mq) | _ \<Rightarrow> None)"

text \<open>
  The queues the program can hold: the array of ten slots cleared once (\<open>setup\<close>),
  then any sequence of clear, append and advance.
\<close>

inductive reachable :: "MoveQueue \<Rightarrow> bool" where
  start: "length (queue mq0) = 10 \<Longrightarrow> MoveQueue_clear mq0 = Inr mq \<Longrightarrow> reachable mq"
| clear: "reachable mq \<Longrightarrow> MoveQueue_clear mq = Inr mq1 \<Longrightarrow> reachable mq1"
| add: "reachable mq \<Longrightarrow> MoveQueue_add_move mq st c = Inr mq1 \<Longrightarrow> reachable mq1"
| advance: "reachable mq \<Longrightarrow> MoveQueue_next mq = Inr (st, mq1) \<Longrightarrow> reachable mq1"

definition queue_inv :: "MoveQueue \<Rightarrow> bool" where
  "queue_inv mq =
     (length (queue mq) = 10 \<and> 0 \<le> pos mq \<and> pos mq \<le> n mq \<and> n mq \<le> MOVE_QUEUE_MAX)"

text \<open>Concrete inputs: a bus line that stays high, one that stays low, a zeroed buffer.\<close>

definition line_idle :: "nat \<Rightarrow> bool" where
  "line_idle t = True"

definition line_low :: "nat \<Rightarrow> bool" where
  "line_low t = False"

definition mem_zero :: "nat \<Rightarrow> 8 word" where
  "mem_zero a = 0"

definition neutral_entry :: entry where
  "neutral_entry = \<lparr>status = initial_gc_status, count = 1\<rparr>"

definition stick_right_entry :: entry where
  "stick_right_entry = \<lparr>status = initial_gc_status\<lparr>stick_x := 255\<rparr>, count = 1\<rparr>"

definition full_queue :: MoveQueue where
  "full_queue = \<lparr>queue = replicate 10 neutral_entry, n = 10, pos = 0\<rparr>"

definition cleared_queue :: MoveQueue where
  "cleared_queue =
     move_queue_init\<lparr>queue :=
       (queue move_queue_init)[0 := (queue move_queue_init ! 0)\<lparr>status := initial_gc_status\<rparr>]\<rparr>"

section \<open>Facts about decoding\<close>

lemma decode_delta_x_shift: "decode_delta_x b = (drop_bit 3 (uint b) AND 7) - 2"
proof -
  have "drop_bit 3 (uint b AND 0x38) = drop_bit 3 (uint b) AND (7::int)"
    by (simp add: bit_eq_iff bit_simps)
  then show ?thesis by (simp add: decode_delta_x_def)
qed

lemma decode_rot_shift: "decode_rot b = drop_bit 1 (uint b) AND 3"
proof -
  have "drop_bit 1 (uint b AND 0x06) = drop_bit 1 (uint b) AND (3::int)"
    by (simp add: bit_eq_iff bit_simps)
  then show ?thesis by (simp add: decode_rot_def)
qed

lemma decode_down_fast_bit: "decode_down_fast b = bit b 0"
proof -
  have "bit (uint b) 0 = bit b 0"
    by (simp add: bit_uint_iff)
  moreover have "(uint b AND 1 \<noteq> 0) = bit (uint b) 0"
    by (simp add: and_one_eq bit_0 odd_iff_mod_2_eq_one)
  ultimately show ?thesis by (simp only: decode_down_fast_def)
qed

lemma decode_delta_x_range: "- 2 \<le> decode_delta_x b \<and> decode_delta_x b \<le> 5"
proof -
  have "0 \<le> drop_bit 3 (uint b) AND (7::int)" by simp
  moreover have "drop_bit 3 (uint b) AND (7::int) \<le> 7" by (rule AND_upper2) simp
  ultimately show ?thesis by (simp add: decode_delta_x_shift)
qed

lemma decode_rot_range: "0 \<le> decode_rot b \<and> decode_rot b \<le> 3"
proof -
  have "0 \<le> drop_bit 1 (uint b) AND (3::int)" by simp
  moreover have "drop_bit 1 (uint b) AND (3::int) \<le> 3" by (rule AND_upper2) simp
  ultimately show ?thesis by (simp add: decode_rot_shift)
qed

lemma decode_delta_x_cases:
  "decode_delta_x b = - 2 \<or> decode_delta_x b = - 1 \<or> decode_delta_x b = 0 \<or> decode_delta_x b = 1
     \<or> decode_delta_x b = 2 \<or> decode_delta_x b = 3 \<or> decode_delta_x b = 4 \<or> decode_delta_x b = 5"
  using decode_delta_x_range [of b] by arith

lemma decode_rot_cases:
  "decode_rot b = 0 \<or> decode_rot b = 1 \<or> decode_rot b = 2 \<or> decode_rot b = 3"
  using decode_rot_range [of b] by arith

text \<open>
  C8. For every byte read from the host link, the displacement is
  \<open>((b >> 3) & 7) - 2\<close> and lies in -2..5, the rotation count is \<open>(b >> 1) & 3\<close>
  and lies in 0..3, and the fast-drop flag is bit 0 of the byte.
\<close>

theorem move_code_fields:
  "decode_delta_x b = (drop_bit 3 (uint b) AND 7) - 2
   \<and> - 2 \<le> decode_delta_x b \<and> decode_delta_x b \<le> 5
   \<and> decode_rot b = drop_bit 1 (uint b) AND 3
   \<and> 0 \<le> decode_rot b \<and> decode_rot b \<le> 3
   \<and> decode_down_fast b = bit b 0"
  using decode_delta_x_shift [of b] decode_rot_shift [of b] decode_down_fast_bit [of b]
    decode_delta_x_range [of b] decode_rot_range [of b]
  by simp

section \<open>Appending to a full queue\<close>

text \<open>
  C7. When the queue already holds 10 entries, \<open>MoveQueue_add_move\<close> returns the
  queue it was given: the slots, the entry count and the cursor are all unchanged.
\<close>

theorem add_move_full_unchanged:
  "n mq = 10 \<Longrightarrow> MoveQueue_add_move mq st c = Inr mq"
  by (simp add: MoveQueue_add_move_def MOVE_QUEUE_MAX_def)

theorem add_move_full_unchanged_witness:
  "n full_queue = 10
   \<and> MoveQueue_add_move full_queue (initial_gc_status\<lparr>stick_y := 0\<rparr>) 8 = Inr full_queue"
proof -
  have h: "n full_queue = 10" by (simp add: full_queue_def)
  from add_move_full_unchanged [OF h] h show ?thesis by simp
qed

section \<open>The dispatcher\<close>

lemma length_byte_bits: "length (byte_bits w) = 8"
  by (simp add: byte_bits_def)

lemma length_wire_frame: "length (wire_frame bytes) = 8 * length bytes + 1"
  by (induction bytes) (simp_all add: wire_frame_def length_byte_bits)

lemma wire_frame_neq: "length xs \<noteq> length ys \<Longrightarrow> wire_frame xs \<noteq> wire_frame ys"
proof
  assume "length xs \<noteq> length ys" and "wire_frame xs = wire_frame ys"
  from this(2) have "length (wire_frame xs) = length (wire_frame ys)" by simp
  with \<open>length xs \<noteq> length ys\<close> show False by (simp add: length_wire_frame)
qed

lemma response_lengths:
  "length identify_response = 3" "length origin_response = 10"
  "length (gc_status_bytes st) = 8"
  by (simp_all add: identify_response_def origin_response_def gc_status_bytes_def)

lemma respond_cases:
  "respond 0x00 st = Inr [Frame (wire_frame identify_response)]"
  "respond 0x41 st = Inr [Delay 4, Frame (wire_frame origin_response)]"
  "respond 0x40 st = Inr [Delay 96, Frame (wire_frame (gc_status_bytes st))]"
  "b \<noteq> 0x00 \<Longrightarrow> b \<noteq> 0x41 \<Longrightarrow> b \<noteq> 0x40 \<Longrightarrow> respond b st = Inr []"
  by (simp_all add: respond_def gc_send_def response_lengths)

lemma frames_differ:
  "wire_frame identify_response \<noteq> wire_frame origin_response"
  "wire_frame identify_response \<noteq> wire_frame (gc_status_bytes st)"
  "wire_frame origin_response \<noteq> wire_frame (gc_status_bytes st)"
  by (rule wire_frame_neq, simp add: response_lengths)+

text \<open>
  C9. For a received command byte \<open>b\<close> the dispatcher sends the frame of the 3-byte
  identification record exactly when \<open>b = 0x00\<close>, the frame of the 10-byte origin
  record exactly when \<open>b = 0x41\<close>, the frame of the 8 bytes of the current controller
  state exactly when \<open>b = 0x40\<close>, and does nothing on the bus exactly when \<open>b\<close> is
  none of the three.
\<close>

theorem respond_dispatch:
  "\<exists>evs. respond b st = Inr evs
     \<and> (Frame (wire_frame identify_response) \<in> set evs) = (b = 0x00)
     \<and> (Frame (wire_frame origin_response) \<in> set evs) = (b = 0x41)
     \<and> (Frame (wire_frame (gc_status_bytes st)) \<in> set evs) = (b = 0x40)
     \<and> (evs = []) = (b \<noteq> 0x00 \<and> b \<noteq> 0x41 \<and> b \<noteq> 0x40)
     \<and> length identify_response = 3 \<and> length origin_response = 10
     \<and> length (gc_status_bytes st) = 8"
proof -
  consider "b = 0x00" | "b = 0x41" | "b = 0x40" | "b \<noteq> 0x00" "b \<noteq> 0x41" "b \<noteq> 0x40"
    by blast
  then show ?thesis
  proof cases
    case 1
    then show ?thesis
      by (simp add: respond_cases response_lengths frames_differ frames_differ [symmetric])
  next
    case 2
    then show ?thesis
      by (simp add: respond_cases response_lengths frames_differ frames_differ [symmetric])
  next
    case 3
    then show ?thesis
      by (simp add: respond_cases response_lengths frames_differ frames_differ [symmetric])
  next
    case 4
    then show ?thesis
      by (simp add: respond_cases response_lengths)
  qed
qed

section \<open>Queues built from move codes\<close>

lemma length_10E:
  assumes "length (xs :: 'a list) = 10"
  obtains e0 e1 e2 e3 e4 e5 e6 e7 e8 e9 where "xs = [e0, e1, e2, e3, e4, e5, e6, e7, e8, e9]"
  using assms by (auto simp: numeral_eq_Suc length_Suc_conv intro: that)

lemma MoveQueue_slotsE:
  assumes "length (queue mq) = 10"
  obtains e0 e1 e2 e3 e4 e5 e6 e7 e8 e9 k p where
    "mq = \<lparr>queue = [e0, e1, e2, e3, e4, e5, e6, e7, e8, e9], n = k, pos = p\<rparr>"
proof -
  obtain q k p where mq: "mq = \<lparr>queue = q, n = k, pos = p\<rparr>" by (cases mq) auto
  with assms have "length q = 10" by simp
  then obtain e0 e1 e2 e3 e4 e5 e6 e7 e8 e9 where "q = [e0, e1, e2, e3, e4, e5, e6, e7, e8, e9]"
    by (rule length_10E)
  with mq show ?thesis by (auto intro: that)
qed

lemmas build_defs = build_queue_def move_loop.simps MoveQueue_clear_def MoveQueue_add_move_def
  slot_ok_def move_stick_def move_rotate_def entries_def MOVE_QUEUE_MAX_def

text \<open>
  With the displacement and the rotation count fixed the loop unrolls; each of the
  lemmas below runs the construction on an array of ten unknown slots.
\<close>

lemma build_valid_ends_neutral:
  assumes "length (queue mq) = 10"
    and "dx = - 2 \<or> dx = - 1 \<or> dx = 0 \<or> dx = 1 \<or> dx = 2"
    and "rot = 0 \<or> rot = 1 \<or> rot = 2 \<or> rot = 3"
  shows "\<exists>mq1. build_queue dx rot f mq = Some (Inr mq1) \<and> entries mq1 \<noteq> [] \<and>
           last (entries mq1) = \<lparr>status = initial_gc_status, count = 1\<rparr> \<and> pos mq1 = 0"
proof -
  from assms(1) obtain e0 e1 e2 e3 e4 e5 e6 e7 e8 e9 k p where
    mq: "mq = \<lparr>queue = [e0, e1, e2, e3, e4, e5, e6, e7, e8, e9], n = k, pos = p\<rparr>"
    by (rule MoveQueue_slotsE)
  from assms(2,3) show ?thesis unfolding mq
    by (cases f) (elim disjE; simp add: build_defs)+
qed

lemma build_still:
  assumes "length (queue mq) = 10"
  shows "\<exists>mq1. build_queue 0 0 False mq = Some (Inr mq1) \<and>
           entries mq1 = [neutral_entry, neutral_entry] \<and> n mq1 = 2 \<and> pos mq1 = 0"
proof -
  from assms obtain e0 e1 e2 e3 e4 e5 e6 e7 e8 e9 k p where
    mq: "mq = \<lparr>queue = [e0, e1, e2, e3, e4, e5, e6, e7, e8, e9], n = k, pos = p\<rparr>"
    by (rule MoveQueue_slotsE)
  show ?thesis unfolding mq
    by (simp add: build_defs neutral_entry_def)
qed

lemma build_right_twice:
  assumes "length (queue mq) = 10"
  shows "\<exists>mq1. build_queue 2 0 False mq = Some (Inr mq1) \<and>
           entries mq1 = [stick_right_entry, neutral_entry, stick_right_entry, neutral_entry] \<and>
           n mq1 = 4 \<and> pos mq1 = 0"
proof -
  from assms obtain e0 e1 e2 e3 e4 e5 e6 e7 e8 e9 k p where
    mq: "mq = \<lparr>queue = [e0, e1, e2, e3, e4, e5, e6, e7, e8, e9], n = k, pos = p\<rparr>"
    by (rule MoveQueue_slotsE)
  show ?thesis unfolding mq
    by (simp add: build_defs neutral_entry_def stick_right_entry_def)
qed

lemma build_rot3_once:
  assumes "length (queue mq) = 10"
    and "dx = - 2 \<or> dx = - 1 \<or> dx = 0 \<or> dx = 1 \<or> dx = 2 \<or> dx = 3 \<or> dx = 4 \<or> dx = 5"
  shows "\<exists>mq1. build_queue dx 3 f mq = Some (Inr mq1) \<and>
           length (filter (\<lambda>e. bit (data1 (status e)) 0) (entries mq1)) = 1 \<and>
           bit (data1 (status (hd (entries mq1)))) 0 \<and> 2 \<le> length (entries mq1) \<and>
           length (filter (\<lambda>e. bit (data1 (status e)) 2) (entries mq1)) = 0"
proof -
  from assms(1) obtain e0 e1 e2 e3 e4 e5 e6 e7 e8 e9 k p where
    mq: "mq = \<lparr>queue = [e0, e1, e2, e3, e4, e5, e6, e7, e8, e9], n = k, pos = p\<rparr>"
    by (rule MoveQueue_slotsE)
  from assms(2) show ?thesis unfolding mq
    by (cases f) (elim disjE; simp add: build_defs initial_gc_status_def)+
qed

lemma build_rot12_clockwise:
  assumes "length (queue mq) = 10"
    and "dx = - 2 \<or> dx = - 1 \<or> dx = 0 \<or> dx = 1 \<or> dx = 2 \<or> dx = 3 \<or> dx = 4 \<or> dx = 5"
    and "rot = 1 \<or> rot = 2"
  shows "\<exists>mq1. build_queue dx rot f mq = Some (Inr mq1) \<and>
           list_all (\<lambda>e. data1 (status e) AND NOT 4 = 0 \<and> data2 (status e) = 0) (entries mq1) \<and>
           int (length (filter (\<lambda>e. bit (data1 (status e)) 2) (entries mq1))) = rot"
proof -
  from assms(1) obtain e0 e1 e2 e3 e4 e5 e6 e7 e8 e9 k p where
    mq: "mq = \<lparr>queue = [e0, e1, e2, e3, e4, e5, e6, e7, e8, e9], n = k, pos = p\<rparr>"
    by (rule MoveQueue_slotsE)
  from assms(2,3) show ?thesis unfolding mq
    by (cases f) (elim disjE; simp add: build_defs initial_gc_status_def)+
qed

lemmas decode_defs = decode_delta_x_def decode_rot_def decode_down_fast_def

lemma move_queue_init_slots: "length (queue move_queue_init) = 10"
  by (simp add: move_queue_init_def)

text \<open>
  C1. For every move code whose displacement lies in -2..2 (the rotation code is in 0..3
  and the fast-drop flag is a bit for every byte), run on an array of ten slots, the
  construction returns a queue that is not empty and whose last entry is the neutral state
  (no button set, both sticks at 128, both triggers 0) with count 1.
\<close>

theorem move_code_queue_ends_neutral:
  assumes "length (queue mq) = 10"
    and "- 2 \<le> decode_delta_x b \<and> decode_delta_x b \<le> 2"
  shows "\<exists>mq1. move_code_queue b mq = Some (Inr mq1) \<and> entries mq1 \<noteq> [] \<and>
           last (entries mq1) =
             \<lparr>status = \<lparr>data1 = 0, data2 = 0, stick_x = 128, stick_y = 128,
                         cstick_x = 128, cstick_y = 128, left = 0, right = 0\<rparr>,
              count = 1\<rparr>"
proof -
  from assms(2) have dx: "decode_delta_x b = - 2 \<or> decode_delta_x b = - 1 \<or> decode_delta_x b = 0
      \<or> decode_delta_x b = 1 \<or> decode_delta_x b = 2"
    by arith
  from build_valid_ends_neutral
    [where f = "decode_down_fast b", OF assms(1) dx decode_rot_cases [of b]]
  show ?thesis
    by (auto simp add: move_code_queue_def initial_gc_status_def)
qed

theorem move_code_queue_ends_neutral_witness:
  "length (queue move_queue_init) = 10
   \<and> - 2 \<le> decode_delta_x 0x27 \<and> decode_delta_x 0x27 \<le> 2
   \<and> (\<exists>mq1. move_code_queue 0x27 move_queue_init = Some (Inr mq1) \<and> entries mq1 \<noteq> [] \<and>
           last (entries mq1) =
             \<lparr>status = \<lparr>data1 = 0, data2 = 0, stick_x = 128, stick_y = 128,
                         cstick_x = 128, cstick_y = 128, left = 0, right = 0\<rparr>,
              count = 1\<rparr>)"
proof -
  have h1: "length (queue move_queue_init) = 10"
    by (simp add: move_queue_init_def)
  have h2: "- 2 \<le> decode_delta_x 0x27 \<and> decode_delta_x 0x27 \<le> 2"
    by (simp add: decode_delta_x_def)
  from move_code_queue_ends_neutral [OF h1 h2] h1 h2 show ?thesis by blast
qed

text \<open>
  C3, as the code has it. A move code with displacement 0, rotation 0 and no fast drop
  gives a queue of exactly two entries, both neutral with count 1: the body of the
  \<open>do ... while\<close> loop runs once and appends the untouched state, and the closing
  neutral entry follows.
\<close>

theorem still_move_two_entries:
  assumes "length (queue mq) = 10"
    and "decode_delta_x b = 0" and "decode_rot b = 0" and "\<not> decode_down_fast b"
  shows "\<exists>mq1. move_code_queue b mq = Some (Inr mq1) \<and>
           entries mq1 = [neutral_entry, neutral_entry] \<and> n mq1 = 2 \<and> pos mq1 = 0"
  using build_still [OF assms(1)] assms(2-4) by (simp add: move_code_queue_def)

theorem still_move_two_entries_witness:
  "length (queue move_queue_init) = 10
   \<and> decode_delta_x 0x10 = 0 \<and> decode_rot 0x10 = 0 \<and> \<not> decode_down_fast 0x10
   \<and> (\<exists>mq1. move_code_queue 0x10 move_queue_init = Some (Inr mq1) \<and>
           entries mq1 = [neutral_entry, neutral_entry] \<and> n mq1 = 2 \<and> pos mq1 = 0)"
proof -
  have h1: "length (queue move_queue_init) = 10"
    by (simp add: move_queue_init_def)
  have h2: "decode_delta_x 0x10 = 0" by (simp add: decode_delta_x_def)
  have h3: "decode_rot 0x10 = 0" by (simp add: decode_rot_def)
  have h4: "\<not> decode_down_fast 0x10" by (simp add: decode_down_fast_def)
  from still_move_two_entries [OF h1 h2 h3 h4] h1 h2 h3 h4 show ?thesis by blast
qed

theorem still_move_counterexample:
  "decode_delta_x 0x10 = 0 \<and> decode_rot 0x10 = 0 \<and> \<not> decode_down_fast 0x10
   \<and> built_entries 0x10 move_queue_init = Some [neutral_entry, neutral_entry]
   \<and> built_entries 0x10 move_queue_init \<noteq> Some [neutral_entry]"
proof -
  from build_still [OF move_queue_init_slots] obtain mq1 where
    "build_queue 0 0 False move_queue_init = Some (Inr mq1)"
    "entries mq1 = [neutral_entry, neutral_entry]"
    by blast
  then show ?thesis
    by (simp add: built_entries_def move_code_queue_def decode_defs)
qed

text \<open>
  C4, as the code has it. A move code with displacement +2, rotation 0 and no fast drop
  gives exactly four entries, each with count 1: stick right (\<open>stick_x = 255\<close>), neutral,
  stick right, neutral. The release after the last press is the closing neutral entry: the
  loop appends no release of its own after its last step.
\<close>

theorem right_twice_four_entries:
  assumes "length (queue mq) = 10"
    and "decode_delta_x b = 2" and "decode_rot b = 0" and "\<not> decode_down_fast b"
  shows "\<exists>mq1. move_code_queue b mq = Some (Inr mq1) \<and>
           entries mq1 = [stick_right_entry, neutral_entry, stick_right_entry, neutral_entry] \<and>
           stick_x (status stick_right_entry) = 255 \<and> n mq1 = 4 \<and> pos mq1 = 0"
  using build_right_twice [OF assms(1)] assms(2-4)
  by (simp add: move_code_queue_def stick_right_entry_def)

theorem right_twice_four_entries_witness:
  "length (queue move_queue_init) = 10
   \<and> decode_delta_x 0x20 = 2 \<and> decode_rot 0x20 = 0 \<and> \<not> decode_down_fast 0x20
   \<and> (\<exists>mq1. move_code_queue 0x20 move_queue_init = Some (Inr mq1) \<and>
           entries mq1 = [stick_right_entry, neutral_entry, stick_right_entry, neutral_entry] \<and>
           stick_x (status stick_right_entry) = 255 \<and> n mq1 = 4 \<and> pos mq1 = 0)"
proof -
  have h1: "length (queue move_queue_init) = 10"
    by (simp add: move_queue_init_def)
  have h2: "decode_delta_x 0x20 = 2" by (simp add: decode_delta_x_def)
  have h3: "decode_rot 0x20 = 0" by (simp add: decode_rot_def)
  have h4: "\<not> decode_down_fast 0x20" by (simp add: decode_down_fast_def)
  from right_twice_four_entries [OF h1 h2 h3 h4] h1 h2 h3 h4 show ?thesis by blast
qed

theorem right_twice_counterexample:
  "decode_delta_x 0x20 = 2 \<and> decode_rot 0x20 = 0 \<and> \<not> decode_down_fast 0x20
   \<and> built_entries 0x20 move_queue_init
       = Some [stick_right_entry, neutral_entry, stick_right_entry, neutral_entry]
   \<and> built_entries 0x20 move_queue_init
       \<noteq> Some [stick_right_entry, neutral_entry, stick_right_entry, neutral_entry, neutral_entry]"
proof -
  from build_right_twice [OF move_queue_init_slots] obtain mq1 where
    "build_queue 2 0 False move_queue_init = Some (Inr mq1)"
    "entries mq1 = [stick_right_entry, neutral_entry, stick_right_entry, neutral_entry]"
    by blast
  then show ?thesis
    by (simp add: built_entries_def move_code_queue_def decode_defs)
qed

text \<open>
  C5. For every move code with rotation code 3 the anticlockwise button (A, bit 0 of
  \<open>data1\<close>) is set in exactly one entry of the queue, the first, which another entry
  follows; the clockwise button (X, bit 2) is set in none. For rotation codes 1 and 2 no
  entry has any button bit set other than X, and X is set in as many entries as the code
  says.
\<close>

theorem rotation_buttons:
  assumes "length (queue mq) = 10"
  shows "(decode_rot b = 3 \<longrightarrow>
            (\<exists>mq1. move_code_queue b mq = Some (Inr mq1) \<and>
               length (filter (\<lambda>e. bit (data1 (status e)) 0) (entries mq1)) = 1 \<and>
               bit (data1 (status (hd (entries mq1)))) 0 \<and> 2 \<le> length (entries mq1) \<and>
               length (filter (\<lambda>e. bit (data1 (status e)) 2) (entries mq1)) = 0))
       \<and> (decode_rot b = 1 \<or> decode_rot b = 2 \<longrightarrow>
            (\<exists>mq1. move_code_queue b mq = Some (Inr mq1) \<and>
               list_all (\<lambda>e. data1 (status e) AND NOT 4 = 0 \<and> data2 (status e) = 0) (entries mq1) \<and>
               int (length (filter (\<lambda>e. bit (data1 (status e)) 2) (entries mq1))) = decode_rot b))"
proof (intro conjI impI)
  assume "decode_rot b = 3"
  with build_rot3_once [where f = "decode_down_fast b", OF assms decode_delta_x_cases [of b]]
  show "\<exists>mq1. move_code_queue b mq = Some (Inr mq1) \<and>
          length (filter (\<lambda>e. bit (data1 (status e)) 0) (entries mq1)) = 1 \<and>
          bit (data1 (status (hd (entries mq1)))) 0 \<and> 2 \<le> length (entries mq1) \<and>
          length (filter (\<lambda>e. bit (data1 (status e)) 2) (entries mq1)) = 0"
    by (simp add: move_code_queue_def)
next
  assume r: "decode_rot b = 1 \<or> decode_rot b = 2"
  from build_rot12_clockwise
    [where f = "decode_down_fast b", OF assms decode_delta_x_cases [of b] r]
  show "\<exists>mq1. move_code_queue b mq = Some (Inr mq1) \<and>
          list_all (\<lambda>e. data1 (status e) AND NOT 4 = 0 \<and> data2 (status e) = 0) (entries mq1) \<and>
          int (length (filter (\<lambda>e. bit (data1 (status e)) 2) (entries mq1))) = decode_rot b"
    by (simp add: move_code_queue_def)
qed

theorem rotation_buttons_witness:
  "length (queue move_queue_init) = 10 \<and> decode_rot 0x16 = 3 \<and> decode_rot 0x24 = 2
   \<and> (\<exists>mq1. move_code_queue 0x16 move_queue_init = Some (Inr mq1) \<and>
         length (filter (\<lambda>e. bit (data1 (status e)) 0) (entries mq1)) = 1)
   \<and> (\<exists>mq1. move_code_queue 0x24 move_queue_init = Some (Inr mq1) \<and>
         list_all (\<lambda>e. data1 (status e) AND NOT 4 = 0 \<and> data2 (status e) = 0) (entries mq1) \<and>
         length (filter (\<lambda>e. bit (data1 (status e)) 2) (entries mq1)) = 2)"
proof -
  have h1: "length (queue move_queue_init) = 10"
    by (simp add: move_queue_init_def)
  have h2: "decode_rot 0x16 = 3" by (simp add: decode_rot_def)
  have h3: "decode_rot 0x24 = 2" by (simp add: decode_rot_def)
  from rotation_buttons [OF h1, of "0x16"] h2
  have a: "\<exists>mq1. move_code_queue 0x16 move_queue_init = Some (Inr mq1) \<and>
         length (filter (\<lambda>e. bit (data1 (status e)) 0) (entries mq1)) = 1"
    by blast
  from rotation_buttons [OF h1, of "0x24"] h3
  have b: "\<exists>mq1. move_code_queue 0x24 move_queue_init = Some (Inr mq1) \<and>
         list_all (\<lambda>e. data1 (status e) AND NOT 4 = 0 \<and> data2 (status e) = 0) (entries mq1) \<and>
         length (filter (\<lambda>e. bit (data1 (status e)) 2) (entries mq1)) = 2"
    by auto
  from h1 h2 h3 a b show ?thesis by blast
qed

section \<open>The receive loop\<close>

lemma gc_wait_low_Some:
  assumes "gc_wait_low line t r24 = Some t1"
  shows "t < t1 \<and> \<not> line (t1 - 1)"
proof (rule gc_wait_low.raw_induct
    [where P = "\<lambda>line t r24 t1. t < t1 \<and> \<not> line (t1 - 1)", OF _ assms], goal_cases)
  case (1 f line t r24 t1)
  show ?case
  proof (cases "line t")
    case False
    with 1(2) show ?thesis by auto
  next
    case True
    with 1(2) have "f line (Suc t) (r24 - 1) = Some t1"
      by (simp add: Let_def split: if_splits)
    from 1(1) [OF this] show ?thesis by simp
  qed
qed

lemma gc_wait_low_idle: "gc_wait_low line_idle t r24 = None"
proof (cases "gc_wait_low line_idle t r24")
  case None
  then show ?thesis .
next
  case (Some t1)
  from gc_wait_low_Some [OF this] show ?thesis by (simp add: line_idle_def)
qed

lemma low_run_extend:
  assumes "\<not> line t" and "\<forall>k<m. \<not> line (Suc t + k)"
  shows "\<forall>k<Suc m. \<not> line (t + k)"
proof (intro allI impI)
  fix k
  assume "k < Suc m"
  show "\<not> line (t + k)"
  proof (cases k)
    case 0
    with assms(1) show ?thesis by simp
  next
    case (Suc j)
    with \<open>k < Suc m\<close> assms(2) show ?thesis by simp
  qed
qed

lemma gc_wait_high_TimedOut:
  "gc_wait_high line t r24 = TimedOut t2 \<Longrightarrow>
     \<forall>k < (if r24 = 0 then 256 else unat r24). \<not> line (t + k)"
proof (induction line t r24 rule: gc_wait_high.induct)
  case (1 line t r24)
  from "1.prems" have low: "\<not> line t"
    by (subst (asm) gc_wait_high.simps) (simp split: if_splits)
  show ?case
  proof (cases "r24 - 1 = 0")
    case True
    then have "r24 = 1" by simp
    with low show ?thesis by (simp add: less_Suc_eq)
  next
    case False
    with "1.prems" low have "gc_wait_high line (Suc t) (r24 - 1) = TimedOut t2"
      by (subst (asm) gc_wait_high.simps) simp
    from "1.IH" [OF low False this] False
    have ih: "\<forall>k < unat (r24 - 1). \<not> line (Suc t + k)" by simp
    show ?thesis
    proof (cases "r24 = 0")
      case True
      have "unat (- 1 :: 8 word) = 255"
        by (simp add: unsigned_minus_1_eq_mask mask_eq_exp_minus_1)
      with True ih have "\<forall>k < 255. \<not> line (Suc t + k)" by simp
      from low_run_extend [OF low this] True show ?thesis by simp
    next
      case r: False
      then have "unat (r24 - 1) = unat r24 - 1" by (rule unat_minus_one)
      moreover from r have "unat r24 \<noteq> 0" by (simp add: unat_eq_0)
      ultimately have "Suc (unat (r24 - 1)) = unat r24" by simp
      with low_run_extend [OF low ih] r show ?thesis by simp
    qed
  qed
qed

lemma gc_read_loop_Some:
  assumes "gc_read_loop line t r23 r25 z mem = Some res"
  shows "(\<exists>t1. \<not> line t1) \<and> (fst res = 0 \<or> fst res = 1) \<and>
     (fst res = 0 \<longrightarrow> (\<exists>t1. \<forall>k<64. \<not> line (t1 + k)))"
proof (rule gc_read_loop.raw_induct
    [where P = "\<lambda>line t r23 r25 z mem res. (\<exists>t1. \<not> line t1) \<and> (fst res = 0 \<or> fst res = 1) \<and>
       (fst res = 0 \<longrightarrow> (\<exists>t1. \<forall>k<64. \<not> line (t1 + k)))", OF _ assms], goal_cases)
  case (1 f line t r23 r25 z mem res)
  from 1(2) obtain t1 where w: "gc_wait_low line t 64 = Some t1"
    by (auto split: option.splits)
  from gc_wait_low_Some [OF w] have low: "\<exists>t1. \<not> line t1" by blast
  show ?case
  proof (cases "r25 + 1 = 8")
    case True
    with 1(2) w low show ?thesis by (auto simp: Let_def)
  next
    case False
    show ?thesis
    proof (cases "gc_wait_high line (Suc t1) 64")
      case (LineHigh t2)
      with 1(2) w False obtain r23c z1 mem1 where
          "f line t2 r23c (r25 + 1) z1 mem1 = Some res"
        by (auto simp: Let_def)
      from 1(1) [OF this] show ?thesis .
    next
      case (TimedOut t2)
      from gc_wait_high_TimedOut [OF this] have "\<forall>k<64. \<not> line (Suc t1 + k)" by simp
      then have "\<exists>t1. \<forall>k<64. \<not> line (t1 + k)" by blast
      with 1(2) w False TimedOut low show ?thesis by (auto simp: Let_def)
    qed
  qed
qed

lemma gc_get_line_low: "gc_get line_low 0 mem_zero = Some (0, mem_zero)"
proof -
  have a: "gc_wait_low line_low 0 64 = Some 1"
    by (subst gc_wait_low.simps) (simp add: line_low_def)
  have b: "gc_wait_high line_low t r24 = (if r24 - 1 \<noteq> 0 then gc_wait_high line_low (Suc t) (r24 - 1)
      else TimedOut (Suc t))" for t r24
    by (subst gc_wait_high.simps) (simp add: line_low_def)
  have c: "\<exists>t2. gc_wait_high line_low t 64 = TimedOut t2" for t
    by (simp add: b)
  have d: "mem_zero(0 := 0) = mem_zero"
    by (auto simp: mem_zero_def)
  from c [of "Suc 1"] obtain t2 where "gc_wait_high line_low (Suc 1) 64 = TimedOut t2" ..
  then show ?thesis
    unfolding gc_get_def
    by (subst gc_read_loop.simps) (simp add: a d line_low_def Let_def del: Suc_1 One_nat_def)
qed

text \<open>
  C2, as the code has it. The wait for the falling edge has a counter of 64 iterations but
  no way out when the counter runs down (\<open>jmp _1\<close> goes back to the poll): \<open>gc_get\<close>
  returns only after it has read the line low, so it never returns while the line stays
  high. What it returns is 0 or 1, and 0 only when 64 reads in a row found the line low,
  which is the bounded wait for the line to go back high after a bit.
\<close>

theorem gc_get_returns_after_low:
  assumes "gc_get line r23 mem = Some (ret, mem1)"
  shows "(\<exists>t. \<not> line t) \<and> (ret = 0 \<or> ret = 1) \<and> (ret = 0 \<longrightarrow> (\<exists>t. \<forall>k<64. \<not> line (t + k)))"
  using gc_read_loop_Some [of line 0 r23 0 0 mem "(ret, mem1)"] assms
  by (simp add: gc_get_def)

theorem gc_get_returns_after_low_witness:
  "gc_get line_low 0 mem_zero = Some (0, mem_zero)
   \<and> (\<exists>t. \<not> line_low t) \<and> (\<exists>t. \<forall>k<64. \<not> line_low (t + k))"
  using gc_get_returns_after_low [OF gc_get_line_low] gc_get_line_low by simp

theorem gc_get_idle_counterexample:
  "gc_get line_idle 0 mem_zero = None \<and> gc_get line_idle 0 mem_zero \<noteq> Some (0, mem_zero)"
  unfolding gc_get_def
  by (subst gc_read_loop.simps, subst gc_read_loop.simps) (simp add: gc_wait_low_idle)

section \<open>The queue invariant\<close>

lemma clear_inv:
  assumes "length (queue mq) = 10"
  shows "\<exists>mq1. MoveQueue_clear mq = Inr mq1 \<and> queue_inv mq1 \<and> n mq1 = 0 \<and> pos mq1 = 0"
  using assms
  by (auto simp add: MoveQueue_clear_def slot_ok_def MOVE_QUEUE_MAX_def queue_inv_def Let_def)

lemma add_move_inv:
  assumes "queue_inv mq"
  shows "\<exists>mq1. MoveQueue_add_move mq st c = Inr mq1 \<and> queue_inv mq1 \<and> pos mq1 = pos mq"
  using assms
  by (auto simp add: MoveQueue_add_move_def slot_ok_def MOVE_QUEUE_MAX_def queue_inv_def)

lemma get_status_inv:
  assumes "queue_inv mq"
  shows "\<exists>st. MoveQueue_get_status mq = Inr st"
  using assms
  by (auto simp add: MoveQueue_get_status_def slot_ok_def MOVE_QUEUE_MAX_def queue_inv_def)

lemma next_inv:
  assumes "queue_inv mq"
  shows "\<exists>st mq1. MoveQueue_next mq = Inr (st, mq1) \<and> queue_inv mq1"
proof (cases "n mq \<le> pos mq")
  case True
  from assms have "length (queue mq) = 10" by (simp add: queue_inv_def)
  from clear_inv [OF this] obtain mq1 where
    c: "MoveQueue_clear mq = Inr mq1" "queue_inv mq1" by blast
  from get_status_inv [OF c(2)] obtain st where "MoveQueue_get_status mq1 = Inr st" ..
  with True c show ?thesis by (simp add: MoveQueue_next_def)
next
  case False
  with assms have ok: "slot_ok mq (pos mq)"
    by (auto simp add: slot_ok_def queue_inv_def MOVE_QUEUE_MAX_def)
  define e1 where "e1 = (queue mq ! nat (pos mq))\<lparr>count := count (queue mq ! nat (pos mq)) - 1\<rparr>"
  define mq1 where "mq1 = mq\<lparr>queue := (queue mq)[nat (pos mq) := e1]\<rparr>"
  define mq2 where "mq2 = (if count e1 = 0 then mq1\<lparr>pos := pos mq1 + 1\<rparr> else mq1)"
  from assms False have inv2: "queue_inv mq2"
    by (simp add: mq2_def mq1_def queue_inv_def)
  from get_status_inv [OF inv2] obtain st where "MoveQueue_get_status mq2 = Inr st" ..
  with False ok inv2 show ?thesis
    by (auto simp add: MoveQueue_next_def Let_def mq2_def mq1_def e1_def)
qed

lemma reachable_inv: "reachable mq \<Longrightarrow> queue_inv mq"
proof (induction rule: reachable.induct)
  case (start mq0 mq)
  with clear_inv [of mq0] show ?case by simp
next
  case (clear mq mq1)
  then have "length (queue mq) = 10" by (simp add: queue_inv_def)
  with clear_inv [of mq] clear show ?case by simp
next
  case (add mq st c mq1)
  with add_move_inv [of mq st c] show ?case by simp
next
  case (advance mq st mq1)
  with next_inv [of mq] show ?case by simp
qed

lemma clear_move_queue_init: "MoveQueue_clear move_queue_init = Inr cleared_queue"
  by (simp add: MoveQueue_clear_def slot_ok_def MOVE_QUEUE_MAX_def cleared_queue_def
      move_queue_init_def Let_def)

text \<open>
  C10. Every queue reached from the cleared array by clear, append and advance satisfies
  \<open>0 \<le> pos \<le> n \<le> 10\<close>. On such a queue none of the four operations touches a slot
  outside the array (none returns \<open>OutOfBounds\<close>), and \<open>MoveQueue_get_status\<close>
  returns the neutral state when the cursor is out of range.
\<close>

theorem reachable_queue_safe:
  assumes "reachable mq"
  shows "0 \<le> pos mq \<and> pos mq \<le> n mq \<and> n mq \<le> 10
       \<and> (\<exists>mq1. MoveQueue_clear mq = Inr mq1)
       \<and> (\<exists>mq1. MoveQueue_add_move mq st c = Inr mq1)
       \<and> (\<exists>s. MoveQueue_get_status mq = Inr s)
       \<and> (\<exists>s mq1. MoveQueue_next mq = Inr (s, mq1))
       \<and> (pos mq < 0 \<or> n mq \<le> pos mq \<longrightarrow> MoveQueue_get_status mq = Inr initial_gc_status)"
proof -
  from reachable_inv [OF assms] have inv: "queue_inv mq" .
  then have len: "length (queue mq) = 10" by (simp add: queue_inv_def)
  from inv have "0 \<le> pos mq \<and> pos mq \<le> n mq \<and> n mq \<le> 10"
    by (simp add: queue_inv_def MOVE_QUEUE_MAX_def)
  moreover from clear_inv [OF len] have "\<exists>mq1. MoveQueue_clear mq = Inr mq1" by blast
  moreover from add_move_inv [OF inv] have "\<exists>mq1. MoveQueue_add_move mq st c = Inr mq1" by blast
  moreover note get_status_inv [OF inv]
  moreover from next_inv [OF inv] have "\<exists>s mq1. MoveQueue_next mq = Inr (s, mq1)" by blast
  moreover have "pos mq < 0 \<or> n mq \<le> pos mq \<longrightarrow> MoveQueue_get_status mq = Inr initial_gc_status"
    by (simp add: MoveQueue_get_status_def)
  ultimately show ?thesis by blast
qed


theorem reachable_queue_safe_witness:
  "reachable cleared_queue
   \<and> 0 \<le> pos cleared_queue \<and> pos cleared_queue \<le> n cleared_queue \<and> n cleared_queue \<le> 10
   \<and> (\<exists>mq1. MoveQueue_add_move cleared_queue initial_gc_status 1 = Inr mq1)
   \<and> (\<exists>s mq1. MoveQueue_next cleared_queue = Inr (s, mq1))
   \<and> n cleared_queue \<le> pos cleared_queue
   \<and> MoveQueue_get_status cleared_queue = Inr initial_gc_status"
proof -
  have r: "reachable cleared_queue"
    by (rule reachable.start [OF move_queue_init_slots clear_move_queue_init])
  have "n cleared_queue \<le> pos cleared_queue"
    by (simp add: cleared_queue_def move_queue_init_def)
  with reachable_queue_safe [OF r, of initial_gc_status 1] r show ?thesis by blast
qed

section \<open>Playing a queue back\<close>

lemma advance_times_add:
  "advance_times (a + b) mq =
     (case advance_times a mq of Inl err \<Rightarrow> Inl err | Inr mq1 \<Rightarrow> advance_times b mq1)"
  by (induction a arbitrary: mq) (auto split: sum.splits)

text \<open>One advance inside the queue: the count of the current entry goes down by one.\<close>

lemma next_inside:
  assumes "length (queue mq) = 10" and "0 \<le> pos mq" and "pos mq < n mq" and "n mq \<le> 10"
  shows "advance_times 1 mq =
           Inr (mq\<lparr>queue := (queue mq)[nat (pos mq) :=
                      (queue mq ! nat (pos mq))\<lparr>count := count (queue mq ! nat (pos mq)) - 1\<rparr>],
                    pos := (if count (queue mq ! nat (pos mq)) - 1 = 0 then pos mq + 1 else pos mq)\<rparr>)"
proof -
  from assms have ok: "slot_ok mq (pos mq)"
    by (auto simp add: slot_ok_def MOVE_QUEUE_MAX_def)
  define e1 where "e1 = (queue mq ! nat (pos mq))\<lparr>count := count (queue mq ! nat (pos mq)) - 1\<rparr>"
  define mq2 where "mq2 = mq\<lparr>queue := (queue mq)[nat (pos mq) := e1],
      pos := (if count e1 = 0 then pos mq + 1 else pos mq)\<rparr>"
  from assms have "queue_inv mq2"
    by (simp add: mq2_def queue_inv_def MOVE_QUEUE_MAX_def)
  then obtain st where "MoveQueue_get_status mq2 = Inr st"
    using get_status_inv by blast
  with assms ok show ?thesis
    by (auto simp add: MoveQueue_next_def Let_def mq2_def e1_def)
qed


text \<open>As many advances as the count of the current entry move the cursor to the next one.\<close>

lemma drain_entry:
  assumes "length (queue mq) = 10" and "0 \<le> pos mq" and "pos mq < n mq" and "n mq \<le> 10"
    and "unat (count (queue mq ! nat (pos mq))) = Suc k"
  shows "advance_times (Suc k) mq =
           Inr (mq\<lparr>queue := (queue mq)[nat (pos mq) := (queue mq ! nat (pos mq))\<lparr>count := 0\<rparr>],
                    pos := pos mq + 1\<rparr>)"
  using assms
proof (induction k arbitrary: mq)
  case 0
  then have "unat (count (queue mq ! nat (pos mq))) = unat (1 :: 16 word)"
    by simp
  then have "count (queue mq ! nat (pos mq)) = 1"
    by (simp only: word_unat_eq_iff)
  with next_inside [OF "0.prems"(1-4)] show ?case by simp
next
  case (Suc k)
  define c where "c = count (queue mq ! nat (pos mq))"
  define mq1 where "mq1 = mq\<lparr>queue := (queue mq)[nat (pos mq) :=
      (queue mq ! nat (pos mq))\<lparr>count := c - 1\<rparr>]\<rparr>"
  from Suc.prems(5) have c: "unat c = Suc (Suc k)" by (simp add: c_def)
  then have "c \<noteq> 0" by auto
  then have "unat (c - 1) = unat c - 1" by (rule unat_minus_one)
  with c have c1: "unat (c - 1) = Suc k" by simp
  then have "c - 1 \<noteq> 0" by auto
  with next_inside [OF Suc.prems(1-4)] have step: "advance_times 1 mq = Inr mq1"
    by (simp add: mq1_def c_def)
  from Suc.prems(1-4) have p: "nat (pos mq) < length (queue mq)" by auto
  have "advance_times (Suc k) mq1 =
      Inr (mq1\<lparr>queue := (queue mq1)[nat (pos mq1) := (queue mq1 ! nat (pos mq1))\<lparr>count := 0\<rparr>],
               pos := pos mq1 + 1\<rparr>)"
  proof (rule Suc.IH)
    show "length (queue mq1) = 10" using Suc.prems(1) by (simp add: mq1_def)
    show "0 \<le> pos mq1" using Suc.prems(2) by (simp add: mq1_def)
    show "pos mq1 < n mq1" using Suc.prems(3) by (simp add: mq1_def)
    show "n mq1 \<le> 10" using Suc.prems(4) by (simp add: mq1_def)
    show "unat (count (queue mq1 ! nat (pos mq1))) = Suc k"
      using p c1 by (simp add: mq1_def)
  qed
  with p have "advance_times (Suc k) mq1 =
      Inr (mq\<lparr>queue := (queue mq)[nat (pos mq) := (queue mq ! nat (pos mq))\<lparr>count := 0\<rparr>],
              pos := pos mq + 1\<rparr>)"
    by (simp add: mq1_def)
  moreover have "advance_times (Suc (Suc k)) mq =
      (case advance_times 1 mq of Inl err \<Rightarrow> Inl err | Inr mq1 \<Rightarrow> advance_times (Suc k) mq1)"
    using advance_times_add [of 1 "Suc k" mq] by simp
  ultimately show ?case using step by simp
qed


text \<open>From any cursor, as many advances as the counts still to play reach the end.\<close>

lemma drain_from:
  assumes "queue_inv mq"
    and "list_all (\<lambda>e. count e \<noteq> 0) (drop (nat (pos mq)) (entries mq))"
  shows "\<exists>mq1. advance_times
             (sum_list (map (\<lambda>e. unat (count e)) (drop (nat (pos mq)) (entries mq)))) mq = Inr mq1
           \<and> queue_inv mq1 \<and> pos mq1 = n mq \<and> n mq1 = n mq"
  using assms
proof (induction m \<equiv> "nat (n mq - pos mq)" arbitrary: mq)
  case 0
  then have "pos mq = n mq" by (simp add: queue_inv_def)
  with "0.prems"(1) show ?case by (simp add: entries_def)
next
  case (Suc m)
  define p where "p = nat (pos mq)"
  define e where "e = queue mq ! p"
  define rest where "rest = drop (Suc p) (entries mq)"
  define mq1 where "mq1 = mq\<lparr>queue := (queue mq)[p := e\<lparr>count := 0\<rparr>], pos := pos mq + 1\<rparr>"
  from Suc.prems(1) have inv: "length (queue mq) = 10" "0 \<le> pos mq" "n mq \<le> 10"
    by (simp_all add: queue_inv_def MOVE_QUEUE_MAX_def)
  from Suc.hyps(2) have lt: "pos mq < n mq" by simp
  with inv have p: "p < nat (n mq)" "nat (n mq) \<le> length (queue mq)"
    by (simp_all add: p_def)
  then have pe: "p < length (entries mq)" by (simp add: entries_def)
  from p have "entries mq ! p = e" by (simp add: entries_def e_def)
  with Cons_nth_drop_Suc [OF pe] have split: "drop p (entries mq) = e # rest"
    by (simp add: rest_def)
  with Suc.prems(2) have nz: "count e \<noteq> 0" and rest_nz: "list_all (\<lambda>e. count e \<noteq> 0) rest"
    by (simp_all add: p_def)
  from nz have "unat (count e) \<noteq> 0" by (simp add: unat_eq_0)
  then obtain k where k: "unat (count e) = Suc k" by (cases "unat (count e)") auto
  from drain_entry [OF inv(1,2) lt inv(3), of k] k
  have first: "advance_times (Suc k) mq = Inr mq1"
    by (simp add: mq1_def e_def p_def)
  from inv lt have pos1: "nat (pos mq1) = Suc p"
    by (simp add: mq1_def p_def nat_add_distrib)
  have "entries mq1 = (entries mq)[p := e\<lparr>count := 0\<rparr>]"
    by (simp add: entries_def mq1_def take_update_swap)
  then have rest1: "drop (nat (pos mq1)) (entries mq1) = rest"
    by (simp add: pos1 rest_def)
  from Suc.prems(1) lt have inv1: "queue_inv mq1"
    by (simp add: mq1_def queue_inv_def)
  from Suc.hyps(2) inv lt have m: "m = nat (n mq1 - pos mq1)"
    by (simp add: mq1_def)
  from Suc.hyps(1) [OF m inv1] rest_nz rest1
  obtain mq2 where mq2:
    "advance_times (sum_list (map (\<lambda>e. unat (count e)) rest)) mq1 = Inr mq2"
    "queue_inv mq2" "pos mq2 = n mq1" "n mq2 = n mq1"
    by auto
  have "advance_times (Suc k + sum_list (map (\<lambda>e. unat (count e)) rest)) mq = Inr mq2"
    by (simp only: advance_times_add first mq2(1) sum.case)
  with split k mq2 show ?case
    by (simp add: p_def [symmetric] mq1_def)
qed

text \<open>Past the end: the next advance clears the queue, and it stays cleared.\<close>

lemma next_drained:
  assumes "queue_inv mq" and "n mq \<le> pos mq"
  shows "\<exists>mq1. MoveQueue_next mq = Inr (initial_gc_status, mq1) \<and> queue_inv mq1
           \<and> n mq1 = 0 \<and> pos mq1 = 0"
proof -
  from assms(1) have "length (queue mq) = 10" by (simp add: queue_inv_def)
  from clear_inv [OF this] obtain mq1 where
    c: "MoveQueue_clear mq = Inr mq1" "queue_inv mq1" "n mq1 = 0" "pos mq1 = 0" by blast
  then have "MoveQueue_get_status mq1 = Inr initial_gc_status"
    by (simp add: MoveQueue_get_status_def)
  with assms(2) c show ?thesis by (simp add: MoveQueue_next_def)
qed

lemma drained_stays:
  assumes "queue_inv mq" and "n mq \<le> pos mq"
  shows "\<exists>mq2. advance_times k mq = Inr mq2 \<and> queue_inv mq2 \<and> n mq2 \<le> pos mq2
           \<and> (0 < k \<longrightarrow> n mq2 = 0 \<and> pos mq2 = 0)"
  using assms
proof (induction k arbitrary: mq)
  case 0
  then show ?case by simp
next
  case (Suc k)
  from next_drained [OF Suc.prems] obtain mq1 where
    s: "MoveQueue_next mq = Inr (initial_gc_status, mq1)" "queue_inv mq1" "n mq1 = 0" "pos mq1 = 0"
    by blast
  then have "n mq1 \<le> pos mq1" by simp
  from Suc.IH [OF s(2) this] obtain mq2 where
    r: "advance_times k mq1 = Inr mq2" "queue_inv mq2" "n mq2 \<le> pos mq2"
      "0 < k \<longrightarrow> n mq2 = 0 \<and> pos mq2 = 0"
    by blast
  show ?case
  proof (cases k)
    case 0
    with r(1) have "mq2 = mq1" by simp
    with s r show ?thesis by simp
  next
    case (Suc j)
    with s r show ?thesis by simp
  qed
qed


text \<open>What every move code leaves: some entries, all with a count, the cursor on the first.\<close>

lemma build_fresh:
  assumes "length (queue mq) = 10"
    and "dx = - 2 \<or> dx = - 1 \<or> dx = 0 \<or> dx = 1 \<or> dx = 2 \<or> dx = 3 \<or> dx = 4 \<or> dx = 5"
    and "rot = 0 \<or> rot = 1 \<or> rot = 2 \<or> rot = 3"
  shows "\<exists>mq1. build_queue dx rot f mq = Some (Inr mq1) \<and> length (queue mq1) = 10 \<and>
           pos mq1 = 0 \<and> 0 < n mq1 \<and> n mq1 \<le> 10 \<and>
           list_all (\<lambda>e. count e \<noteq> 0) (entries mq1)"
proof -
  from assms(1) obtain e0 e1 e2 e3 e4 e5 e6 e7 e8 e9 k p where
    mq: "mq = \<lparr>queue = [e0, e1, e2, e3, e4, e5, e6, e7, e8, e9], n = k, pos = p\<rparr>"
    by (rule MoveQueue_slotsE)
  from assms(2,3) show ?thesis unfolding mq
    by (cases f) (elim disjE; simp add: build_defs)+
qed

lemma move_code_queue_fresh:
  assumes "length (queue mq0) = 10"
  shows "\<exists>mq. move_code_queue b mq0 = Some (Inr mq) \<and> queue_inv mq \<and> pos mq = 0 \<and> 0 < n mq \<and>
           list_all (\<lambda>e. count e \<noteq> 0) (entries mq)"
  using build_fresh [where f = "decode_down_fast b",
      OF assms decode_delta_x_cases [of b] decode_rot_cases [of b]]
  by (auto simp add: move_code_queue_def queue_inv_def MOVE_QUEUE_MAX_def)

text \<open>
  C6, as the code has it. Take the queue a move code leaves (at least one entry, the cursor
  on the first). After as many advances as the sum of its counts the cursor stands past
  the last entry, \<open>pos = n\<close>, with \<open>n\<close> unchanged and not 0: the queue is played out
  but not cleared. The advance after that clears it (\<open>n = 0\<close>, \<open>pos = 0\<close>), and it stays
  so. From the played-out queue on, after any number of further advances,
  \<open>MoveQueue_get_status\<close> returns the neutral state.
\<close>

theorem advance_plays_out:
  assumes "length (queue mq0) = 10"
  shows "\<exists>mq mq1. move_code_queue b mq0 = Some (Inr mq)
       \<and> advance_times (total_count mq) mq = Inr mq1
       \<and> pos mq1 = n mq1 \<and> n mq1 = n mq \<and> 0 < n mq
       \<and> (\<forall>k. \<exists>mq2. advance_times k mq1 = Inr mq2
                \<and> MoveQueue_get_status mq2 = Inr initial_gc_status)
       \<and> (\<forall>k. \<exists>mq2. advance_times (Suc k) mq1 = Inr mq2 \<and> n mq2 = 0 \<and> pos mq2 = 0)"
proof -
  from move_code_queue_fresh [OF assms, of b] obtain mq where
    mq: "move_code_queue b mq0 = Some (Inr mq)" "queue_inv mq" "pos mq = 0" "0 < n mq"
      "list_all (\<lambda>e. count e \<noteq> 0) (entries mq)"
    by blast
  from drain_from [OF mq(2)] mq(3,5) obtain mq1 where
    mq1: "advance_times (total_count mq) mq = Inr mq1" "queue_inv mq1" "pos mq1 = n mq"
      "n mq1 = n mq"
    by (auto simp add: total_count_def)
  then have past: "n mq1 \<le> pos mq1" by simp
  have a: "\<exists>mq2. advance_times k mq1 = Inr mq2
      \<and> MoveQueue_get_status mq2 = Inr initial_gc_status" for k
  proof -
    from drained_stays [OF mq1(2) past, of k] obtain mq2 where
      "advance_times k mq1 = Inr mq2" "n mq2 \<le> pos mq2" by blast
    then show ?thesis by (auto simp add: MoveQueue_get_status_def)
  qed
  have b: "\<exists>mq2. advance_times (Suc k) mq1 = Inr mq2 \<and> n mq2 = 0 \<and> pos mq2 = 0" for k
    using drained_stays [OF mq1(2) past, of "Suc k"] by auto
  from mq(1,4) mq1 a b show ?thesis by auto
qed

theorem advance_plays_out_witness:
  "length (queue move_queue_init) = 10
   \<and> (\<exists>mq mq1. move_code_queue 0x10 move_queue_init = Some (Inr mq)
       \<and> advance_times (total_count mq) mq = Inr mq1
       \<and> pos mq1 = n mq1 \<and> n mq1 = n mq \<and> 0 < n mq
       \<and> (\<exists>mq2. advance_times 3 mq1 = Inr mq2
                \<and> MoveQueue_get_status mq2 = Inr initial_gc_status \<and> n mq2 = 0 \<and> pos mq2 = 0))"
proof -
  from advance_plays_out [OF move_queue_init_slots, of "0x10"] obtain mq mq1 where
    h: "move_code_queue 0x10 move_queue_init = Some (Inr mq)"
      "advance_times (total_count mq) mq = Inr mq1"
      "pos mq1 = n mq1" "n mq1 = n mq" "0 < n mq"
      "\<forall>k. \<exists>mq2. advance_times k mq1 = Inr mq2
                \<and> MoveQueue_get_status mq2 = Inr initial_gc_status"
      "\<forall>k. \<exists>mq2. advance_times (Suc k) mq1 = Inr mq2 \<and> n mq2 = 0 \<and> pos mq2 = 0"
    by blast
  from h(6) obtain mq2 where
    a: "advance_times 3 mq1 = Inr mq2" "MoveQueue_get_status mq2 = Inr initial_gc_status"
    by blast
  from h(7) obtain mq3 where "advance_times (Suc 2) mq1 = Inr mq3" "n mq3 = 0" "pos mq3 = 0"
    by blast
  with a have "n mq2 = 0" "pos mq2 = 0" by (simp_all add: numeral_3_eq_3)
  with h(1-5) a move_queue_init_slots show ?thesis by blast
qed

theorem advance_sum_counterexample:
  "cursor_state (drained 0x10 move_queue_init) = Some (2, 2)
   \<and> cursor_state (Some (MoveQueue_clear move_queue_init)) = Some (0, 0)"
proof -
  from build_still [OF move_queue_init_slots] obtain mq where
    mq: "build_queue 0 0 False move_queue_init = Some (Inr mq)" "n mq = 2" "pos mq = 0"
    by blast
  then have m: "move_code_queue 0x10 move_queue_init = Some (Inr mq)"
    by (simp add: move_code_queue_def decode_defs)
  with move_code_queue_fresh [OF move_queue_init_slots, of "0x10"]
  have inv: "queue_inv mq" and nz: "list_all (\<lambda>e. count e \<noteq> 0) (entries mq)"
    by simp_all
  from drain_from [OF inv] nz mq(3) obtain mq1 where
    "advance_times (total_count mq) mq = Inr mq1" "pos mq1 = n mq" "n mq1 = n mq"
    by (auto simp add: total_count_def)
  with m mq(2) have "cursor_state (drained 0x10 move_queue_init) = Some (2, 2)"
    by (simp add: drained_def cursor_state_def)
  moreover have "cursor_state (Some (MoveQueue_clear move_queue_init)) = Some (0, 0)"
    by (simp add: clear_move_queue_init cursor_state_def)
      (simp add: cleared_queue_def move_queue_init_def)
  ultimately show ?thesis by simp
qed

end
